theory Spec2Isabelle
  imports Main "HOL-Library.Multiset" "HOL-Library.Monad_Syntax"
begin

section \<open>Sorted difference of jkjs.util: the model\<close>

text \<open>
  The functions of \<^verbatim>\<open>src/jkjs/util.js\<close> that work on arrays of numbers:
  \<^verbatim>\<open>ensureSorted\<close>, \<^verbatim>\<open>requireSorted\<close>, \<^verbatim>\<open>getRemaining\<close> and
  \<^verbatim>\<open>getRemainingIter\<close>.

  Numbers are the elements of any linear order \<open>'a\<close> (the integers and the reals are
  instances). JavaScript's \<^verbatim>\<open>NaN\<close>, which compares false with everything, is outside
  every linear order and outside the model.

  An array is the list of its contents. The functions mutate the arrays they are given, so
  each one takes the contents before the call and returns the contents after it. What is
  written to the console is threaded through in the same way. The two arrays given to
  \<^verbatim>\<open>getRemaining\<close> and \<^verbatim>\<open>getRemainingIter\<close> are taken to be two objects.
\<close>

subsection \<open>Console\<close>

text \<open>
  The two calls of \<^verbatim>\<open>console.warn\<close> in \<^verbatim>\<open>requireSorted\<close>. The second one carries
  \<^verbatim>\<open>swapped\<close> and the array (the stack trace it also prints is left out).
\<close>

datatype 'a warning = Slow_sort_test | Array_not_sorted "'a list" "'a list"

type_synonym 'a console = "'a warning list"

subsection \<open>The running predecessor\<close>

text \<open>
  \<^verbatim>\<open>var prev = Number.NEGATIVE_INFINITY\<close>: the predecessor is either that initial value
  or an element of the array. No number is below negative infinity, so \<^verbatim>\<open>v < prev\<close>
  is false as long as \<^verbatim>\<open>prev\<close> has its initial value.
\<close>

datatype 'a prev = NEGATIVE_INFINITY | Num 'a

fun less_prev :: "'a::linorder \<Rightarrow> 'a prev \<Rightarrow> bool" where
  "less_prev v NEGATIVE_INFINITY = False"
| "less_prev v (Num u) = (v < u)"

subsection \<open>Sorting in place\<close>

text \<open>
  Modelled from the spec: \<^verbatim>\<open>arr.sort(d3.ascending)\<close>. Neither the comparator of the
  d3 library nor the host's \<^verbatim>\<open>Array.prototype.sort\<close> is under \<^verbatim>\<open>src/\<close>; the spec
  describes the call as "a full stable ascending sort of the sequence in place".
  \<open>d3_ascending\<close> is the three-way comparison on numbers, and \<open>array_sort\<close> is a stable
  insertion sort driven by the sign of the comparator, as the host's sort is.
\<close>

definition d3_ascending :: "'a::linorder \<Rightarrow> 'a \<Rightarrow> int" where
  "d3_ascending a b = (if a < b then - 1 else if a > b then 1 else 0)"

fun sort_insert :: "('a \<Rightarrow> 'a \<Rightarrow> int) \<Rightarrow> 'a \<Rightarrow> 'a list \<Rightarrow> 'a list" where
  "sort_insert cmp x [] = [x]"
| "sort_insert cmp x (y # ys) =
     (if cmp x y \<le> 0 then x # y # ys else y # sort_insert cmp x ys)"

definition array_sort :: "('a \<Rightarrow> 'a \<Rightarrow> int) \<Rightarrow> 'a list \<Rightarrow> 'a list" where
  "array_sort cmp arr = foldr (sort_insert cmp) arr []"

subsection \<open>requireSorted\<close>

text \<open>
  The callback of \<^verbatim>\<open>arr.forEach\<close> in \<^verbatim>\<open>requireSorted\<close>, on the three variables it
  updates: \<^verbatim>\<open>prev\<close>, \<^verbatim>\<open>run\<close> and \<^verbatim>\<open>swapped\<close>. \<^verbatim>\<open>swapped.push(prev)\<close> is reached
  only after \<^verbatim>\<open>v < prev\<close>, when \<^verbatim>\<open>prev\<close> is an element of the array.
\<close>

fun requireSorted_cb ::
  "'a::linorder \<Rightarrow> 'a prev \<times> bool \<times> 'a list \<Rightarrow> 'a prev \<times> bool \<times> 'a list" where
  "requireSorted_cb v (NEGATIVE_INFINITY, run, swapped) = (Num v, False, swapped)"
| "requireSorted_cb v (Num u, run, swapped) =
     (if v < u
      then (Num v, True, (if \<not> run then swapped @ [u] else swapped) @ [v])
      else (Num v, False, swapped))"

text \<open>
  \<^verbatim>\<open>requireSorted(arr)\<close>: warn, collect the runs of descending values, and if there is
  any, warn again and sort the array in place.
\<close>

definition requireSorted :: "'a::linorder list \<Rightarrow> 'a console \<Rightarrow> 'a list \<times> 'a console" where
  "requireSorted arr con =
     (let con1 = con @ [Slow_sort_test];
          swapped = snd (snd (fold requireSorted_cb arr (NEGATIVE_INFINITY, False, [])))
      in if length swapped \<noteq> 0
         then (array_sort d3_ascending arr, con1 @ [Array_not_sorted swapped arr])
         else (arr, con1))"

subsection \<open>ensureSorted\<close>

text \<open>
  The \<^verbatim>\<open>for\<close> loop of \<^verbatim>\<open>ensureSorted\<close> from index \<open>i\<close> with predecessor \<open>prev\<close>:
  at the first element below its predecessor it hands the array to
  \<^verbatim>\<open>requireSorted\<close> and returns.
\<close>

function ensureSorted_for ::
  "'a::linorder list \<Rightarrow> 'a console \<Rightarrow> nat \<Rightarrow> 'a prev \<Rightarrow> 'a list \<times> 'a console" where
  "ensureSorted_for arr con i prev =
     (if i < length arr
      then (let v = arr ! i
            in if less_prev v prev then requireSorted arr con
               else ensureSorted_for arr con (i + 1) (Num v))
      else (arr, con))"
  by pat_completeness auto
termination
  by (relation "measure (\<lambda>(arr, con, i, prev). length arr - i)") auto

declare ensureSorted_for.simps [simp del]

definition ensureSorted :: "'a::linorder list \<Rightarrow> 'a console \<Rightarrow> 'a list \<times> 'a console" where
  "ensureSorted arr con =
     (if length arr = 0 then (arr, con)
      else ensureSorted_for arr con 0 NEGATIVE_INFINITY)"

subsection \<open>getRemaining\<close>

text \<open>
  The \<^verbatim>\<open>while\<close> loop of \<^verbatim>\<open>getRemaining\<close> on its variables \<^verbatim>\<open>p\<close>, \<^verbatim>\<open>q\<close> and
  \<^verbatim>\<open>res\<close>. A loop that never ended would be the value \<open>None\<close>. The parameter
  \<^verbatim>\<open>minus\<close> is written \<open>minus'\<close>, since \<open>minus\<close> is the subtraction of HOL.
\<close>

partial_function (option) getRemaining_while ::
  "'a::linorder list \<Rightarrow> 'a list \<Rightarrow> nat \<Rightarrow> nat \<Rightarrow> 'a list \<Rightarrow> (nat \<times> nat \<times> 'a list) option" where
  "getRemaining_while ixs minus' p q res =
     (if p < length ixs \<and> q < length minus'
      then (let cur = ixs ! p; m = minus' ! q
            in if cur < m then getRemaining_while ixs minus' (p + 1) q (res @ [cur])
               else if cur > m then getRemaining_while ixs minus' p (q + 1) res
               else getRemaining_while ixs minus' (p + 1) q res)
      else Some (p, q, res))"

declare getRemaining_while.simps [code]

text \<open>The \<^verbatim>\<open>for\<close> loop that follows it and pushes the rest of \<^verbatim>\<open>ixs\<close>.\<close>

partial_function (option) getRemaining_for ::
  "'a list \<Rightarrow> nat \<Rightarrow> 'a list \<Rightarrow> 'a list option" where
  "getRemaining_for ixs p res =
     (if p < length ixs then getRemaining_for ixs (p + 1) (res @ [ixs ! p])
      else Some res)"

declare getRemaining_for.simps [code]

text \<open>
  \<^verbatim>\<open>getRemaining(ixs, minus)\<close> returns the contents of the array it returns, then the
  contents of \<^verbatim>\<open>ixs\<close> and of \<^verbatim>\<open>minus\<close> on return, then the console. On the early
  return the array returned is \<^verbatim>\<open>ixs\<close> itself.
\<close>

definition getRemaining ::
  "'a::linorder list \<Rightarrow> 'a list \<Rightarrow> 'a console
     \<Rightarrow> ('a list \<times> 'a list \<times> 'a list \<times> 'a console) option" where
  "getRemaining ixs minus' con =
     (if length ixs = 0 \<or> length minus' = 0 then Some (ixs, ixs, minus', con)
      else (let (ixs1, con1) = ensureSorted ixs con;
                (minus1, con2) = ensureSorted minus' con1
            in do {
                 (p, q, res) \<leftarrow> getRemaining_while ixs1 minus1 0 0 [];
                 res1 \<leftarrow> getRemaining_for ixs1 p res;
                 Some (res1, ixs1, minus1, con2)
               }))"

subsection \<open>getRemainingIter\<close>

text \<open>
  The consumer \<^verbatim>\<open>cb\<close> is a function of the value it is given and of the consumer's own
  state \<open>'s\<close>, which it returns updated. The two loops are those of \<^verbatim>\<open>getRemaining\<close>
  with \<^verbatim>\<open>cb(cur)\<close> in place of \<^verbatim>\<open>res.push(cur)\<close>.
\<close>

partial_function (option) getRemainingIter_while ::
  "'a::linorder list \<Rightarrow> 'a list \<Rightarrow> ('a \<Rightarrow> 's \<Rightarrow> 's) \<Rightarrow> nat \<Rightarrow> nat \<Rightarrow> 's \<Rightarrow> (nat \<times> nat \<times> 's) option" where
  "getRemainingIter_while ixs minus' cb p q s =
     (if p < length ixs \<and> q < length minus'
      then (let cur = ixs ! p; m = minus' ! q
            in if cur < m then getRemainingIter_while ixs minus' cb (p + 1) q (cb cur s)
               else if cur > m then getRemainingIter_while ixs minus' cb p (q + 1) s
               else getRemainingIter_while ixs minus' cb (p + 1) q s)
      else Some (p, q, s))"

declare getRemainingIter_while.simps [code]

partial_function (option) getRemainingIter_for ::
  "'a list \<Rightarrow> ('a \<Rightarrow> 's \<Rightarrow> 's) \<Rightarrow> nat \<Rightarrow> 's \<Rightarrow> 's option" where
  "getRemainingIter_for ixs cb p s =
     (if p < length ixs then getRemainingIter_for ixs cb (p + 1) (cb (ixs ! p) s)
      else Some s)"

declare getRemainingIter_for.simps [code]

text \<open>
  \<^verbatim>\<open>getRemainingIter(ixs, minus, cb)\<close> returns nothing; the model returns the
  consumer's state after the last call of \<^verbatim>\<open>cb\<close>, the contents of \<^verbatim>\<open>ixs\<close> and of
  \<^verbatim>\<open>minus\<close> on return, and the console. \<^verbatim>\<open>ixs.forEach(cb)\<close> calls \<^verbatim>\<open>cb\<close> on each
  element in index order (it also passes the index and the array, which a consumer of
  one parameter does not see).
\<close>

definition getRemainingIter ::
  "'a::linorder list \<Rightarrow> 'a list \<Rightarrow> ('a \<Rightarrow> 's \<Rightarrow> 's) \<Rightarrow> 's \<Rightarrow> 'a console
     \<Rightarrow> ('s \<times> 'a list \<times> 'a list \<times> 'a console) option" where
  "getRemainingIter ixs minus' cb s con =
     (if length ixs = 0 \<or> length minus' = 0 then Some (fold cb ixs s, ixs, minus', con)
      else (let (ixs1, con1) = ensureSorted ixs con;
                (minus1, con2) = ensureSorted minus' con1
            in do {
                 (p, q, s1) \<leftarrow> getRemainingIter_while ixs1 minus1 cb 0 0 s;
                 s2 \<leftarrow> getRemainingIter_for ixs1 cb p s1;
                 Some (s2, ixs1, minus1, con2)
               }))"

subsection \<open>Ascending from a predecessor\<close>

text \<open>
  What the two scans test: no element of \<open>xs\<close> is below the element before it, the first
  one being compared with \<open>prev\<close>. For a linear order that is \<open>sorted\<close>.
\<close>

fun chain_from :: "'a::linorder prev \<Rightarrow> 'a list \<Rightarrow> bool" where
  "chain_from NEGATIVE_INFINITY xs = sorted xs"
| "chain_from (Num u) xs = sorted (u # xs)"

section \<open>Lemmas\<close>

subsection \<open>Sorting and the two scans\<close>

lemma chain_from_Cons:
  "chain_from prev (v # xs) = (\<not> less_prev v prev \<and> chain_from (Num v) xs)"
  by (cases prev) auto

lemma sort_insert_mset: "mset (sort_insert cmp x ys) = add_mset x (mset ys)"
  by (induction ys) simp_all

lemma array_sort_mset: "mset (array_sort cmp arr) = mset arr"
  by (induction arr) (simp_all add: array_sort_def sort_insert_mset)

lemma sort_insert_set: "set (sort_insert cmp x ys) = insert x (set ys)"
  by (induction ys) auto

lemma sort_insert_sorted:
  "sorted ys \<Longrightarrow> sorted (sort_insert d3_ascending x ys)"
  by (induction ys) (auto simp: d3_ascending_def sort_insert_set split: if_splits)

lemma array_sort_sorted: "sorted (array_sort d3_ascending arr)"
  by (induction arr) (simp_all add: array_sort_def sort_insert_sorted)

lemma array_sort_eq_sort: "array_sort d3_ascending arr = sort arr"
  by (rule properties_for_sort[symmetric]) (simp_all add: array_sort_mset array_sort_sorted)

lemma swapped_empty_iff:
  "snd (snd (fold requireSorted_cb xs (prev, run, sw))) = [] \<longleftrightarrow> sw = [] \<and> chain_from prev xs"
proof (induction xs arbitrary: prev run sw)
  case Nil
  show ?case by (cases prev) simp_all
next
  case (Cons v xs)
  show ?case
  proof (cases prev)
    case NEGATIVE_INFINITY
    then show ?thesis by (simp add: Cons.IH)
  next
    case (Num u)
    then show ?thesis by (auto simp: Cons.IH)
  qed
qed

lemma requireSorted_sorted:
  "sorted arr \<Longrightarrow> requireSorted arr con = (arr, con @ [Slow_sort_test])"
  by (simp add: requireSorted_def swapped_empty_iff)

lemma requireSorted_unsorted:
  "\<not> sorted arr \<Longrightarrow> fst (requireSorted arr con) = array_sort d3_ascending arr"
  by (simp add: requireSorted_def swapped_empty_iff Let_def)

lemma ensureSorted_for_eq:
  "ensureSorted_for arr con i prev =
     (if chain_from prev (drop i arr) then (arr, con) else requireSorted arr con)"
proof (induction arr con i prev rule: ensureSorted_for.induct)
  case (1 arr con i prev)
  show ?case
  proof (cases "i < length arr")
    case False
    then show ?thesis
      by (cases prev) (simp_all add: ensureSorted_for.simps[of arr con i])
  next
    case True
    then have d: "drop i arr = arr ! i # drop (i + 1) arr"
      by (simp add: Cons_nth_drop_Suc)
    show ?thesis
    proof (cases "less_prev (arr ! i) prev")
      case True
      with \<open>i < length arr\<close> d show ?thesis
        by (simp add: ensureSorted_for.simps[of arr con i] chain_from_Cons del: chain_from.simps)
    next
      case False
      with \<open>i < length arr\<close> d "1.IH"[OF \<open>i < length arr\<close> refl False] show ?thesis
        by (simp add: ensureSorted_for.simps[of arr con i] chain_from_Cons del: chain_from.simps)
    qed
  qed
qed

lemma ensureSorted_eq:
  "ensureSorted arr con = (if sorted arr then (arr, con) else requireSorted arr con)"
  by (simp add: ensureSorted_def ensureSorted_for_eq)

subsection \<open>The loops of getRemaining and getRemainingIter\<close>

lemma getRemaining_for_eq: "getRemaining_for ixs p res = Some (res @ drop p ixs)"
proof (induction "length ixs - p" arbitrary: p res)
  case 0
  then show ?case by (simp add: getRemaining_for.simps[of ixs p])
next
  case (Suc n)
  then have "p < length ixs" and "n = length ixs - (p + 1)" by simp_all
  with Suc.hyps(1)[of "p + 1" "res @ [ixs ! p]"] show ?case
    by (simp add: getRemaining_for.simps[of ixs p] Cons_nth_drop_Suc)
qed

lemma getRemainingIter_for_eq: "getRemainingIter_for ixs cb p s = Some (fold cb (drop p ixs) s)"
proof (induction "length ixs - p" arbitrary: p s)
  case 0
  then show ?case by (simp add: getRemainingIter_for.simps[of ixs cb p])
next
  case (Suc n)
  then have "p < length ixs" and "n = length ixs - (p + 1)" by simp_all
  with Suc.hyps(1)[of "p + 1" "cb (ixs ! p) s"] show ?case
    by (simp add: getRemainingIter_for.simps[of ixs cb p] Cons_nth_drop_Suc[symmetric])
qed

lemma getRemaining_while_exit:
  "\<not> (p < length ixs \<and> q < length minus') \<Longrightarrow>
     getRemaining_while ixs minus' p q res = Some (p, q, res)"
  by (subst getRemaining_while.simps) auto

lemma getRemaining_while_lt:
  "p < length ixs \<Longrightarrow> q < length minus' \<Longrightarrow> ixs ! p < minus' ! q \<Longrightarrow>
     getRemaining_while ixs minus' p q res =
     getRemaining_while ixs minus' (p + 1) q (res @ [ixs ! p])"
  by (subst getRemaining_while.simps) (simp add: Let_def)

lemma getRemaining_while_gt:
  "p < length ixs \<Longrightarrow> q < length minus' \<Longrightarrow> ixs ! p > minus' ! q \<Longrightarrow>
     getRemaining_while ixs minus' p q res = getRemaining_while ixs minus' p (q + 1) res"
  by (subst getRemaining_while.simps) (auto simp: Let_def)

lemma getRemaining_while_eq:
  "p < length ixs \<Longrightarrow> q < length minus' \<Longrightarrow> ixs ! p = minus' ! q \<Longrightarrow>
     getRemaining_while ixs minus' p q res = getRemaining_while ixs minus' (p + 1) q res"
  by (subst getRemaining_while.simps) (simp add: Let_def)

lemma getRemainingIter_while_exit:
  "\<not> (p < length ixs \<and> q < length minus') \<Longrightarrow>
     getRemainingIter_while ixs minus' cb p q s = Some (p, q, s)"
  by (subst getRemainingIter_while.simps) auto

lemma getRemainingIter_while_lt:
  "p < length ixs \<Longrightarrow> q < length minus' \<Longrightarrow> ixs ! p < minus' ! q \<Longrightarrow>
     getRemainingIter_while ixs minus' cb p q s =
     getRemainingIter_while ixs minus' cb (p + 1) q (cb (ixs ! p) s)"
  by (subst getRemainingIter_while.simps) (simp add: Let_def)

lemma getRemainingIter_while_gt:
  "p < length ixs \<Longrightarrow> q < length minus' \<Longrightarrow> ixs ! p > minus' ! q \<Longrightarrow>
     getRemainingIter_while ixs minus' cb p q s = getRemainingIter_while ixs minus' cb p (q + 1) s"
  by (subst getRemainingIter_while.simps) (auto simp: Let_def)

lemma getRemainingIter_while_eq:
  "p < length ixs \<Longrightarrow> q < length minus' \<Longrightarrow> ixs ! p = minus' ! q \<Longrightarrow>
     getRemainingIter_while ixs minus' cb p q s = getRemainingIter_while ixs minus' cb (p + 1) q s"
  by (subst getRemainingIter_while.simps) (simp add: Let_def)

lemma getRemaining_while_returns:
  "\<exists>p' q' r. getRemaining_while ixs minus' p q res = Some (p', q', r) \<and>
     p \<le> p' \<and> q \<le> q' \<and> \<not> (p' < length ixs \<and> q' < length minus')"
proof (induction "(length ixs - p) + (length minus' - q)" arbitrary: p q res rule: less_induct)
  case less
  show ?case
  proof (cases "p < length ixs \<and> q < length minus'")
    case False
    then show ?thesis by (auto simp: getRemaining_while_exit)
  next
    case True
    then have p: "p < length ixs" and q: "q < length minus'" by simp_all
    have m1: "(length ixs - (p + 1)) + (length minus' - q) < (length ixs - p) + (length minus' - q)"
      and m2: "(length ixs - p) + (length minus' - (q + 1)) < (length ixs - p) + (length minus' - q)"
      using p q by simp_all
    consider (lt) "ixs ! p < minus' ! q" | (gt) "ixs ! p > minus' ! q" | (eq) "ixs ! p = minus' ! q"
      by (rule linorder_cases)
    then show ?thesis
    proof cases
      case lt
      from less.hyps[OF m1, of "res @ [ixs ! p]"] show ?thesis
        unfolding getRemaining_while_lt[OF p q lt] by (auto dest: Suc_leD)
    next
      case gt
      from less.hyps[OF m2, of res] show ?thesis
        unfolding getRemaining_while_gt[OF p q gt] by (auto dest: Suc_leD)
    next
      case eq
      from less.hyps[OF m1, of res] show ?thesis
        unfolding getRemaining_while_eq[OF p q eq] by (auto dest: Suc_leD)
    qed
  qed
qed

lemma getRemainingIter_while_eq_map:
  "getRemainingIter_while ixs minus' cb p q (fold cb res s) =
     map_option (\<lambda>(p', q', r). (p', q', fold cb r s)) (getRemaining_while ixs minus' p q res)"
proof (induction "(length ixs - p) + (length minus' - q)" arbitrary: p q res rule: less_induct)
  case less
  show ?case
  proof (cases "p < length ixs \<and> q < length minus'")
    case False
    then show ?thesis
      by (simp add: getRemaining_while_exit getRemainingIter_while_exit)
  next
    case True
    then have p: "p < length ixs" and q: "q < length minus'" by simp_all
    have m1: "(length ixs - (p + 1)) + (length minus' - q) < (length ixs - p) + (length minus' - q)"
      and m2: "(length ixs - p) + (length minus' - (q + 1)) < (length ixs - p) + (length minus' - q)"
      using p q by simp_all
    consider (lt) "ixs ! p < minus' ! q" | (gt) "ixs ! p > minus' ! q" | (eq) "ixs ! p = minus' ! q"
      by (rule linorder_cases)
    then show ?thesis
    proof cases
      case lt
      show ?thesis
        unfolding getRemaining_while_lt[OF p q lt] getRemainingIter_while_lt[OF p q lt]
        using less.hyps[OF m1, of "res @ [ixs ! p]"] by simp
    next
      case gt
      show ?thesis
        unfolding getRemaining_while_gt[OF p q gt] getRemainingIter_while_gt[OF p q gt]
        by (rule less.hyps[OF m2])
    next
      case eq
      show ?thesis
        unfolding getRemaining_while_eq[OF p q eq] getRemainingIter_while_eq[OF p q eq]
        by (rule less.hyps[OF m1])
    qed
  qed
qed

lemma getRemaining_while_sorted:
  assumes "sorted ixs" and "sorted minus'"
  shows "\<forall>x\<in>set (drop p ixs). \<forall>y\<in>set (take q minus'). y < x \<Longrightarrow>
    \<exists>p' q' r. getRemaining_while ixs minus' p q res = Some (p', q', r) \<and>
       r @ drop p' ixs = res @ filter (\<lambda>x. x \<notin> set minus') (drop p ixs)"
proof (induction "(length ixs - p) + (length minus' - q)" arbitrary: p q res rule: less_induct)
  case less
  note inv = less.prems
  show ?case
  proof (cases "p < length ixs \<and> q < length minus'")
    case False
    have "filter (\<lambda>x. x \<notin> set minus') (drop p ixs) = drop p ixs"
    proof (cases "p < length ixs")
      case False
      then show ?thesis by simp
    next
      case True
      with \<open>\<not> (p < length ixs \<and> q < length minus')\<close> have "take q minus' = minus'" by simp
      with inv have "\<forall>x\<in>set (drop p ixs). x \<notin> set minus'" by auto
      then show ?thesis by (simp add: filter_id_conv)
    qed
    with getRemaining_while_exit[OF False, of res] show ?thesis by simp
  next
    case True
    then have p: "p < length ixs" and q: "q < length minus'" by simp_all
    have dp: "drop p ixs = ixs ! p # drop (p + 1) ixs"
      using p by (simp add: Cons_nth_drop_Suc)
    have dq: "drop q minus' = minus' ! q # drop (q + 1) minus'"
      using q by (simp add: Cons_nth_drop_Suc)
    have tq: "take (q + 1) minus' = take q minus' @ [minus' ! q]"
      using q by (simp add: take_Suc_conv_app_nth)
    have "sorted (drop p ixs)"
      using assms(1) by (rule sorted_wrt_drop)
    then have sp: "\<forall>x\<in>set (drop p ixs). ixs ! p \<le> x"
      unfolding dp by auto
    have "sorted (drop q minus')"
      using assms(2) by (rule sorted_wrt_drop)
    then have sq: "\<forall>y\<in>set (drop q minus'). minus' ! q \<le> y"
      unfolding dq by auto
    have split: "set minus' = set (take q minus') \<union> set (drop q minus')"
      by (metis append_take_drop_id set_append)
    have m1: "(length ixs - (p + 1)) + (length minus' - q) < (length ixs - p) + (length minus' - q)"
      and m2: "(length ixs - p) + (length minus' - (q + 1)) < (length ixs - p) + (length minus' - q)"
      using p q by simp_all
    have inv1: "\<forall>x\<in>set (drop (p + 1) ixs). \<forall>y\<in>set (take q minus'). y < x"
      using inv dp by simp
    consider (lt) "ixs ! p < minus' ! q" | (gt) "ixs ! p > minus' ! q" | (eq) "ixs ! p = minus' ! q"
      by (rule linorder_cases)
    then show ?thesis
    proof cases
      case lt
      have "ixs ! p \<notin> set minus'"
      proof
        assume "ixs ! p \<in> set minus'"
        then consider "ixs ! p \<in> set (take q minus')" | "ixs ! p \<in> set (drop q minus')"
          using split by auto
        then show False
        proof cases
          case 1
          with inv dp show False by auto
        next
          case 2
          with sq lt show False by auto
        qed
      qed
      with less.hyps[OF m1 inv1, of "res @ [ixs ! p]"] show ?thesis
        unfolding getRemaining_while_lt[OF p q lt] by (simp add: dp)
    next
      case gt
      have inv2: "\<forall>x\<in>set (drop p ixs). \<forall>y\<in>set (take (q + 1) minus'). y < x"
      proof (intro ballI)
        fix x y
        assume x: "x \<in> set (drop p ixs)" and "y \<in> set (take (q + 1) minus')"
        then have "y \<in> set (take q minus') \<or> y = minus' ! q"
          unfolding tq by auto
        then show "y < x"
        proof
          assume "y \<in> set (take q minus')"
          with inv x show ?thesis by blast
        next
          assume "y = minus' ! q"
          with gt sp x show ?thesis by (auto intro: less_le_trans)
        qed
      qed
      show ?thesis
        unfolding getRemaining_while_gt[OF p q gt] by (rule less.hyps[OF m2 inv2])
    next
      case eq
      have "ixs ! p \<in> set minus'"
        using eq q by simp
      with less.hyps[OF m1 inv1, of res] show ?thesis
        unfolding getRemaining_while_eq[OF p q eq] by (simp add: dp)
    qed
  qed
qed

subsection \<open>The functions as a whole\<close>

lemma ensureSorted_fst:
  "fst (ensureSorted arr con) = (if sorted arr then arr else array_sort d3_ascending arr)"
  by (simp add: ensureSorted_eq requireSorted_unsorted)

lemma ensureSorted_fst_sorted: "sorted (fst (ensureSorted arr con))"
  by (simp add: ensureSorted_fst array_sort_sorted)

lemma ensureSorted_fst_set: "set (fst (ensureSorted arr con)) = set arr"
  by (simp add: ensureSorted_fst) (metis array_sort_mset set_mset_mset)

lemma ensureSorted_id: "sorted arr \<Longrightarrow> ensureSorted arr con = (arr, con)"
  by (simp add: ensureSorted_eq)

lemma fold_snoc: "fold (\<lambda>v tr. tr @ [v]) xs ys = ys @ xs"
  by (induction xs arbitrary: ys) simp_all

lemma getRemaining_nonempty:
  assumes "ixs \<noteq> []" and "minus' \<noteq> []"
    and e1: "ensureSorted ixs con = (ixs1, con1)"
    and e2: "ensureSorted minus' con1 = (minus1, con2)"
  shows "getRemaining ixs minus' con =
           Some (filter (\<lambda>x. x \<notin> set minus') ixs1, ixs1, minus1, con2)"
    and "getRemainingIter ixs minus' cb s con =
           Some (fold cb (filter (\<lambda>x. x \<notin> set minus') ixs1) s, ixs1, minus1, con2)"
proof -
  have s1: "sorted ixs1"
    using ensureSorted_fst_sorted[of ixs con] e1 by simp
  have s2: "sorted minus1"
    using ensureSorted_fst_sorted[of minus' con1] e2 by simp
  have m: "set minus1 = set minus'"
    using ensureSorted_fst_set[of minus' con1] e2 by simp
  from getRemaining_while_sorted[OF s1 s2, of 0 0 "[]"]
  obtain p' q' r where w: "getRemaining_while ixs1 minus1 0 0 [] = Some (p', q', r)"
    and r: "r @ drop p' ixs1 = filter (\<lambda>x. x \<notin> set minus') ixs1"
    by (auto simp: m)
  from assms w r show "getRemaining ixs minus' con =
      Some (filter (\<lambda>x. x \<notin> set minus') ixs1, ixs1, minus1, con2)"
    by (simp add: getRemaining_def getRemaining_for_eq)
  from getRemainingIter_while_eq_map[of ixs1 minus1 cb 0 0 "[]" s] w
  have "getRemainingIter_while ixs1 minus1 cb 0 0 s = Some (p', q', fold cb r s)"
    by simp
  moreover have "fold cb (drop p' ixs1) (fold cb r s) =
      fold cb (filter (\<lambda>x. x \<notin> set minus') ixs1) s"
    using r by (metis fold_append comp_apply)
  ultimately show "getRemainingIter ixs minus' cb s con =
      Some (fold cb (filter (\<lambda>x. x \<notin> set minus') ixs1) s, ixs1, minus1, con2)"
    using assms by (simp add: getRemainingIter_def getRemainingIter_for_eq)
qed

lemma getRemaining_sorted:
  assumes "sorted ixs" and "sorted minus'"
  shows "getRemaining ixs minus' con = Some (filter (\<lambda>x. x \<notin> set minus') ixs, ixs, minus', con)"
proof (cases "ixs = [] \<or> minus' = []")
  case True
  then show ?thesis by (auto simp: getRemaining_def)
next
  case False
  with getRemaining_nonempty(1)[of ixs minus' con ixs con minus' con] assms show ?thesis
    by (simp add: ensureSorted_id)
qed

subsection \<open>The functions on concrete arrays\<close>

text \<open>
  A few runs of the model. The third one is on a minuend that is out of order: it is
  repaired in place, with the two warnings.
\<close>

lemma getRemaining_run_1:
  "getRemaining [1, 2, 3, 4, 5 :: int] [2, 4] [] = Some ([1, 3, 5], [1, 2, 3, 4, 5], [2, 4], [])"
  by code_simp

lemma getRemainingIter_run_1:
  "getRemainingIter [1, 2, 3, 4, 5 :: int] [2, 4] (\<lambda>v tr. tr @ [v]) [] [] =
     Some ([1, 3, 5], [1, 2, 3, 4, 5], [2, 4], [])"
  by code_simp

lemma getRemaining_run_3:
  "getRemaining [5, 3, 1 :: int] [1] [] =
     Some ([3, 5], [1, 3, 5], [1], [Slow_sort_test, Array_not_sorted [5, 3, 1] [5, 3, 1]])"
  by code_simp

lemma getRemaining_run_4:
  "getRemaining [] [1, 2 :: int] [] = Some ([], [], [1, 2], [])"
  by code_simp

lemma ensureSorted_run:
  "ensureSorted [3, 1, 2, 2, - 5 :: int] [] =
     ([- 5, 1, 2, 2, 3], [Slow_sort_test, Array_not_sorted [3, 1, 2, - 5] [3, 1, 2, 2, - 5]])"
  by code_simp

section \<open>The claims\<close>

subsection \<open>C1: equal elements\<close>

text \<open>
  C1, as the spec states it: when the current element of the minuend equals the current
  element of the subtrahend, both pointers advance, so that a duplicate in the minuend is
  removed one for one, and \<^verbatim>\<open>getRemaining([1,1,2,3], [1])\<close> is \<^verbatim>\<open>[1,2,3]\<close>.
  The code does otherwise: on these arrays it returns \<^verbatim>\<open>[2,3]\<close>.
\<close>

theorem getRemaining_one_for_one_counterexample:
  "map_option fst (getRemaining [1, 1, 2, 3 :: int] [1] []) = Some [2, 3] \<and>
   map_option fst (getRemaining [1, 1, 2, 3 :: int] [1] []) \<noteq> Some [1, 2, 3]"
  by code_simp

text \<open>
  C1, amended: when the current element of the minuend equals the current element of the
  subtrahend, the \<^verbatim>\<open>while\<close> loop of \<^verbatim>\<open>getRemaining\<close> and of \<^verbatim>\<open>getRemainingIter\<close>
  advances \<^verbatim>\<open>p\<close> only: nothing is emitted and \<^verbatim>\<open>q\<close> stays, so the same element of
  the subtrahend also meets the next element of the minuend. Every duplicate of a matched
  value is removed, and \<^verbatim>\<open>getRemaining([1,1,2,3], [1])\<close> is \<^verbatim>\<open>[2,3]\<close>.
\<close>

theorem getRemaining_equal_advances_p_only:
  "p < length ixs \<Longrightarrow> q < length minus' \<Longrightarrow> ixs ! p = minus' ! q \<Longrightarrow>
     (\<exists>r. getRemaining_while ixs minus' p q res = Some r \<and>
          getRemaining_while ixs minus' (p + 1) q res = Some r) \<and>
     (\<exists>r. getRemainingIter_while ixs minus' cb p q s = Some r \<and>
          getRemainingIter_while ixs minus' cb (p + 1) q s = Some r) \<and>
     map_option fst (getRemaining [1, 1, 2, 3 :: int] [1] con) = Some [2, 3]"
proof (intro conjI)
  assume h: "p < length ixs" "q < length minus'" "ixs ! p = minus' ! q"
  show "\<exists>r. getRemaining_while ixs minus' p q res = Some r \<and>
          getRemaining_while ixs minus' (p + 1) q res = Some r"
    using getRemaining_while_returns[of ixs minus' "p + 1" q res]
    by (auto simp: getRemaining_while_eq[OF h])
  show "\<exists>r. getRemainingIter_while ixs minus' cb p q s = Some r \<and>
          getRemainingIter_while ixs minus' cb (p + 1) q s = Some r"
    using getRemaining_while_returns[of ixs minus' "p + 1" q "[]"]
      getRemainingIter_while_eq_map[of ixs minus' cb "p + 1" q "[]" s]
    by (auto simp: getRemainingIter_while_eq[OF h])
  show "map_option fst (getRemaining [1, 1, 2, 3 :: int] [1] con) = Some [2, 3]"
    by (simp add: getRemaining_sorted)
qed

theorem getRemaining_equal_advances_p_only_witness:
  "(0 :: nat) < length [1, 1, 2, 3 :: int] \<and> (0 :: nat) < length [1 :: int] \<and>
   [1, 1, 2, 3 :: int] ! 0 = [1] ! 0 \<and>
   getRemaining_while [1, 1, 2, 3 :: int] [1] 0 0 [] = Some (2, 1, []) \<and>
   getRemaining_while [1, 1, 2, 3 :: int] [1] (0 + 1) 0 [] = Some (2, 1, []) \<and>
   getRemainingIter_while [1, 1, 2, 3 :: int] [1] (\<lambda>v tr. tr @ [v]) 0 0 [] = Some (2, 1, []) \<and>
   getRemainingIter_while [1, 1, 2, 3 :: int] [1] (\<lambda>v tr. tr @ [v]) (0 + 1) 0 [] = Some (2, 1, [])"
proof -
  have h1: "(0 :: nat) < length [1, 1, 2, 3 :: int]" by simp
  have h2: "(0 :: nat) < length [1 :: int]" by simp
  have h3: "[1, 1, 2, 3 :: int] ! 0 = [1] ! 0" by simp
  have v1: "getRemaining_while [1, 1, 2, 3 :: int] [1] 0 0 [] = Some (2, 1, [])"
    by code_simp
  have v2: "getRemainingIter_while [1, 1, 2, 3 :: int] [1] (\<lambda>v tr. tr @ [v]) 0 0 [] = Some (2, 1, [])"
    by code_simp
  from getRemaining_equal_advances_p_only[OF h1 h2 h3, of "[]" "\<lambda>v tr. tr @ [v]" "[]"] h1 h2 h3 v1 v2
  show ?thesis by auto
qed

subsection \<open>C2: the streaming form delivers what the batch form returns\<close>

text \<open>
  C2: for every pair of arrays and every consumer, the values that \<^verbatim>\<open>getRemainingIter\<close>
  passes to the consumer, in the order of the calls, are the elements of the array that
  \<^verbatim>\<open>getRemaining\<close> returns on the same arrays. Any consumer ends in the state that
  folding it over that array gives; the consumer that appends each value it is given to a
  list ends with that array. Both forms leave the two arrays and the console alike.
\<close>

theorem getRemainingIter_delivers_getRemaining:
  "\<exists>res ixs1 minus1 con1.
     getRemaining ixs minus' con = Some (res, ixs1, minus1, con1) \<and>
     getRemainingIter ixs minus' cb s con = Some (fold cb res s, ixs1, minus1, con1) \<and>
     getRemainingIter ixs minus' (\<lambda>v tr. tr @ [v]) [] con = Some (res, ixs1, minus1, con1)"
proof (cases "ixs = [] \<or> minus' = []")
  case True
  then show ?thesis
    by (auto simp: getRemaining_def getRemainingIter_def fold_snoc)
next
  case False
  obtain ixs1 con1 where e1: "ensureSorted ixs con = (ixs1, con1)"
    by (cases "ensureSorted ixs con")
  obtain minus1 con2 where e2: "ensureSorted minus' con1 = (minus1, con2)"
    by (cases "ensureSorted minus' con1")
  from False have ne: "ixs \<noteq> []" "minus' \<noteq> []" by simp_all
  show ?thesis
    using getRemaining_nonempty(1)[OF ne e1 e2]
      getRemaining_nonempty(2)[OF ne e1 e2, of cb s]
      getRemaining_nonempty(2)[OF ne e1 e2, of "\<lambda>v tr. tr @ [v]" "[]"]
    by (simp add: fold_snoc)
qed

subsection \<open>C3: ensureSorted leaves the array ascending\<close>

text \<open>
  C3: for every array of numbers (with duplicates, with negative numbers, empty), the array
  is non-decreasing after \<^verbatim>\<open>ensureSorted\<close> returns.
\<close>

theorem ensureSorted_ascending: "sorted (fst (ensureSorted arr con))"
  by (simp add: ensureSorted_fst array_sort_sorted)

subsection \<open>C4: removing the same subtrahend twice\<close>

text \<open>
  C4: for ascending \<open>A\<close> and \<open>B\<close>, \<^verbatim>\<open>getRemaining(getRemaining(A, B), B)\<close> is
  \<^verbatim>\<open>getRemaining(A, B)\<close>. The second call is made on the array the first one returns,
  with \<open>B\<close> and the console as the first call leaves them.
\<close>

theorem getRemaining_idempotent:
  "sorted A \<Longrightarrow> sorted B \<Longrightarrow>
     \<exists>R A1 B1 con1. getRemaining A B con = Some (R, A1, B1, con1) \<and>
        map_option fst (getRemaining R B1 con1) = Some R"
proof -
  assume A: "sorted A" and B: "sorted B"
  let ?R = "filter (\<lambda>x. x \<notin> set B) A"
  have "sorted ?R" using A by (rule sorted_wrt_filter)
  then have "getRemaining ?R B con = Some (filter (\<lambda>x. x \<notin> set B) ?R, ?R, B, con)"
    using B by (rule getRemaining_sorted)
  then have "map_option fst (getRemaining ?R B con) = Some ?R" by simp
  with getRemaining_sorted[OF A B, of con] show ?thesis by blast
qed

theorem getRemaining_idempotent_witness:
  "sorted [1, 2, 2, 3, 5 :: int] \<and> sorted [2, 4 :: int] \<and>
   getRemaining [1, 2, 2, 3, 5 :: int] [2, 4] [] = Some ([1, 3, 5], [1, 2, 2, 3, 5], [2, 4], []) \<and>
   map_option fst (getRemaining [1, 3, 5 :: int] [2, 4] []) = Some [1, 3, 5]"
proof -
  have h1: "sorted [1, 2, 2, 3, 5 :: int]" by simp
  have h2: "sorted [2, 4 :: int]" by simp
  have v: "getRemaining [1, 2, 2, 3, 5 :: int] [2, 4] [] = Some ([1, 3, 5], [1, 2, 2, 3, 5], [2, 4], [])"
    by code_simp
  from getRemaining_idempotent[OF h1 h2, of "[]"] h1 h2 v show ?thesis by auto
qed

subsection \<open>C5: the difference is ascending\<close>

text \<open>
  C5: for ascending \<open>A\<close> and \<open>B\<close>, the array that \<^verbatim>\<open>getRemaining(A, B)\<close> returns is
  non-decreasing.
\<close>

theorem getRemaining_ascending:
  "sorted A \<Longrightarrow> sorted B \<Longrightarrow>
     \<exists>R A1 B1 con1. getRemaining A B con = Some (R, A1, B1, con1) \<and> sorted R"
proof -
  assume A: "sorted A" and B: "sorted B"
  have "sorted (filter (\<lambda>x. x \<notin> set B) A)" using A by (rule sorted_wrt_filter)
  with getRemaining_sorted[OF A B, of con] show ?thesis by blast
qed

theorem getRemaining_ascending_witness:
  "sorted [1, 2, 3, 4, 5 :: int] \<and> sorted [2, 4 :: int] \<and>
   getRemaining [1, 2, 3, 4, 5 :: int] [2, 4] [] = Some ([1, 3, 5], [1, 2, 3, 4, 5], [2, 4], []) \<and>
   sorted [1, 3, 5 :: int]"
proof -
  have h1: "sorted [1, 2, 3, 4, 5 :: int]" by simp
  have h2: "sorted [2, 4 :: int]" by simp
  have v: "getRemaining [1, 2, 3, 4, 5 :: int] [2, 4] [] = Some ([1, 3, 5], [1, 2, 3, 4, 5], [2, 4], [])"
    by code_simp
  from getRemaining_ascending[OF h1 h2, of "[]"] h1 h2 v show ?thesis by auto
qed

subsection \<open>C6: ascending arrays are not mutated\<close>

text \<open>
  C6: \<^verbatim>\<open>ensureSorted\<close> on an ascending array changes neither the array nor the console,
  and when both arrays are ascending \<^verbatim>\<open>getRemaining\<close> (and \<^verbatim>\<open>getRemainingIter\<close>)
  returns with the minuend and the subtrahend holding their original contents.
\<close>

theorem ascending_inputs_not_mutated:
  "sorted A \<Longrightarrow> sorted B \<Longrightarrow>
     ensureSorted A con = (A, con) \<and> ensureSorted B con = (B, con) \<and>
     (\<exists>R. getRemaining A B con = Some (R, A, B, con)) \<and>
     (\<exists>s1. getRemainingIter A B cb s con = Some (s1, A, B, con))"
proof (intro conjI)
  assume A: "sorted A" and B: "sorted B"
  show "ensureSorted A con = (A, con)" using A by (rule ensureSorted_id)
  show "ensureSorted B con = (B, con)" using B by (rule ensureSorted_id)
  show "\<exists>R. getRemaining A B con = Some (R, A, B, con)"
    using getRemaining_sorted[OF A B, of con] by blast
  show "\<exists>s1. getRemainingIter A B cb s con = Some (s1, A, B, con)"
  proof (cases "A = [] \<or> B = []")
    case True
    then show ?thesis by (auto simp: getRemainingIter_def)
  next
    case False
    then have ne: "A \<noteq> []" "B \<noteq> []" by simp_all
    from getRemaining_nonempty(2)[OF ne ensureSorted_id[OF A] ensureSorted_id[OF B], of cb s]
    show ?thesis by blast
  qed
qed

theorem ascending_inputs_not_mutated_witness:
  "sorted [1, 1, 2, 3 :: int] \<and> sorted [1, 3 :: int] \<and>
   ensureSorted [1, 1, 2, 3 :: int] [] = ([1, 1, 2, 3], []) \<and>
   ensureSorted [1, 3 :: int] [] = ([1, 3], []) \<and>
   getRemaining [1, 1, 2, 3 :: int] [1, 3] [] = Some ([2], [1, 1, 2, 3], [1, 3], []) \<and>
   getRemainingIter [1, 1, 2, 3 :: int] [1, 3] (\<lambda>v tr. tr @ [v]) [] [] = Some ([2], [1, 1, 2, 3], [1, 3], [])"
proof -
  have h1: "sorted [1, 1, 2, 3 :: int]" by simp
  have h2: "sorted [1, 3 :: int]" by simp
  have v1: "getRemaining [1, 1, 2, 3 :: int] [1, 3] [] = Some ([2], [1, 1, 2, 3], [1, 3], [])"
    by code_simp
  have v2: "getRemainingIter [1, 1, 2, 3 :: int] [1, 3] (\<lambda>v tr. tr @ [v]) [] [] = Some ([2], [1, 1, 2, 3], [1, 3], [])"
    by code_simp
  from ascending_inputs_not_mutated[OF h1 h2, of "[]" "\<lambda>v tr. tr @ [v]" "[]"] h1 h2 v1 v2
  show ?thesis by auto
qed

subsection \<open>C7: termination\<close>

text \<open>
  C7: every call of \<^verbatim>\<open>getRemaining\<close> and of \<^verbatim>\<open>getRemainingIter\<close> returns, on every
  pair of arrays. The \<^verbatim>\<open>while\<close> loop, started at any \<^verbatim>\<open>p\<close> and \<^verbatim>\<open>q\<close>, reaches its
  exit: it returns with \<^verbatim>\<open>p\<close> and \<^verbatim>\<open>q\<close> not below where they started and with the
  loop condition false. The \<^verbatim>\<open>for\<close> loop after it returns as well.
\<close>

theorem getRemaining_terminates:
  "(\<exists>p' q' r. getRemaining_while ixs minus' p q res = Some (p', q', r) \<and>
      p \<le> p' \<and> q \<le> q' \<and> \<not> (p' < length ixs \<and> q' < length minus')) \<and>
   (\<exists>r. getRemaining_for ixs p res = Some r) \<and>
   (\<exists>r. getRemaining ixs minus' con = Some r) \<and>
   (\<exists>p' q' s1. getRemainingIter_while ixs minus' cb p q s = Some (p', q', s1) \<and>
      p \<le> p' \<and> q \<le> q' \<and> \<not> (p' < length ixs \<and> q' < length minus')) \<and>
   (\<exists>r. getRemainingIter_for ixs cb p s = Some r) \<and>
   (\<exists>r. getRemainingIter ixs minus' cb s con = Some r)"
proof (intro conjI)
  show "\<exists>p' q' r. getRemaining_while ixs minus' p q res = Some (p', q', r) \<and>
      p \<le> p' \<and> q \<le> q' \<and> \<not> (p' < length ixs \<and> q' < length minus')"
    by (rule getRemaining_while_returns)
  show "\<exists>r. getRemaining_for ixs p res = Some r"
    by (simp add: getRemaining_for_eq)
  show "\<exists>p' q' s1. getRemainingIter_while ixs minus' cb p q s = Some (p', q', s1) \<and>
      p \<le> p' \<and> q \<le> q' \<and> \<not> (p' < length ixs \<and> q' < length minus')"
    using getRemaining_while_returns[of ixs minus' p q "[]"]
      getRemainingIter_while_eq_map[of ixs minus' cb p q "[]" s]
    by auto
  show "\<exists>r. getRemainingIter_for ixs cb p s = Some r"
    by (simp add: getRemainingIter_for_eq)
  obtain ixs1 con1 where e1: "ensureSorted ixs con = (ixs1, con1)"
    by (cases "ensureSorted ixs con")
  obtain minus1 con2 where e2: "ensureSorted minus' con1 = (minus1, con2)"
    by (cases "ensureSorted minus' con1")
  show "\<exists>r. getRemaining ixs minus' con = Some r"
  proof (cases "ixs = [] \<or> minus' = []")
    case True
    then show ?thesis by (auto simp: getRemaining_def)
  next
    case False
    then have ne: "ixs \<noteq> []" "minus' \<noteq> []" by simp_all
    from getRemaining_nonempty(1)[OF ne e1 e2] show ?thesis by blast
  qed
  show "\<exists>r. getRemainingIter ixs minus' cb s con = Some r"
  proof (cases "ixs = [] \<or> minus' = []")
    case True
    then show ?thesis by (auto simp: getRemainingIter_def)
  next
    case False
    then have ne: "ixs \<noteq> []" "minus' \<noteq> []" by simp_all
    from getRemaining_nonempty(2)[OF ne e1 e2, of cb s] show ?thesis by blast
  qed
qed

subsection \<open>C8: what the difference contains\<close>

text \<open>
  C8: for ascending \<open>A\<close> and \<open>B\<close>, \<^verbatim>\<open>getRemaining(A, B)\<close> returns the elements of
  \<open>A\<close>, in order, whose value occurs nowhere in \<open>B\<close>: every occurrence of a value of
  \<open>B\<close> is removed, however often the value occurs in either array.
\<close>

theorem getRemaining_removes_every_occurrence:
  "sorted A \<Longrightarrow> sorted B \<Longrightarrow>
     map_option fst (getRemaining A B con) = Some (filter (\<lambda>x. x \<notin> set B) A)"
  by (simp add: getRemaining_sorted)

theorem getRemaining_removes_every_occurrence_witness:
  "sorted [1, 1, 2, 2, 2, 3, 7 :: int] \<and> sorted [1, 2, 2, 5 :: int] \<and>
   map_option fst (getRemaining [1, 1, 2, 2, 2, 3, 7 :: int] [1, 2, 2, 5] []) = Some [3, 7] \<and>
   filter (\<lambda>x. x \<notin> set [1, 2, 2, 5]) [1, 1, 2, 2, 2, 3, 7 :: int] = [3, 7]"
proof -
  have h1: "sorted [1, 1, 2, 2, 2, 3, 7 :: int]" by simp
  have h2: "sorted [1, 2, 2, 5 :: int]" by simp
  have v: "filter (\<lambda>x. x \<notin> set [1, 2, 2, 5]) [1, 1, 2, 2, 2, 3, 7 :: int] = [3, 7]" by simp
  from getRemaining_removes_every_occurrence[OF h1 h2, of "[]"] h1 h2 v show ?thesis by simp
qed

subsection \<open>C9: an empty array\<close>

text \<open>
  C9: when either array is empty, \<^verbatim>\<open>getRemaining\<close> returns the minuend as given and
  \<^verbatim>\<open>getRemainingIter\<close> passes the elements of the minuend to the consumer in their
  given order; neither array is touched and nothing is written to the console, whether or
  not the minuend is ascending: the check and the repair are skipped.
\<close>

theorem empty_input_returns_minuend:
  "ixs = [] \<or> minus' = [] \<Longrightarrow>
     getRemaining ixs minus' con = Some (ixs, ixs, minus', con) \<and>
     getRemainingIter ixs minus' cb s con = Some (fold cb ixs s, ixs, minus', con) \<and>
     getRemainingIter ixs minus' (\<lambda>v tr. tr @ [v]) [] con = Some (ixs, ixs, minus', con)"
  by (auto simp: getRemaining_def getRemainingIter_def fold_snoc)

theorem empty_input_returns_minuend_witness:
  "([3, 1, 2 :: int] = [] \<or> ([] :: int list) = []) \<and> \<not> sorted [3, 1, 2 :: int] \<and>
   getRemaining [3, 1, 2 :: int] [] [] = Some ([3, 1, 2], [3, 1, 2], [], []) \<and>
   getRemainingIter [3, 1, 2 :: int] [] (\<lambda>v tr. tr @ [v]) [] [] = Some ([3, 1, 2], [3, 1, 2], [], [])"
proof -
  have h: "[3, 1, 2 :: int] = [] \<or> ([] :: int list) = []" by simp
  have n: "\<not> sorted [3, 1, 2 :: int]" by simp
  from empty_input_returns_minuend[OF h, of "[]" "\<lambda>v tr. tr @ [v]" "[]"] h n show ?thesis by simp
qed

subsection \<open>C10: ensureSorted only reorders\<close>

text \<open>
  C10: for every array, the contents after \<^verbatim>\<open>ensureSorted\<close> are a permutation of the
  contents before: the two have the same multiset of elements.
\<close>

theorem ensureSorted_permutes: "mset (fst (ensureSorted arr con)) = mset arr"
  by (simp add: ensureSorted_fst array_sort_mset)

end
